theory Spec2Isabelle
  imports Main "HOL-Library.Multiset"
begin

section \<open>Data model\<close>

text \<open>
  Package \<open>ratelimiter\<close> (rate-limiter/ratelimiter.go) and package \<open>scraper\<close>
  (scraper/scraper.go). Goroutines are modelled by their control points, channels by
  their buffered contents, and the scheduler by a labelled transition function
  \<open>fire\<close>: one label per communication or control step of one goroutine.
\<close>

text \<open>Runtime panics of the Go program that the modelled code can raise.\<close>

datatype panic = MakechanSizeOutOfRange | IntegerDivideByZero | NonPositiveTickerInterval

text \<open>The \<open>error\<close> values that occur: the one built by \<open>ScrapeURLs\<close>, the context's
  cancellation error, and a transport failure of the HTTP client.\<close>

datatype err = RateLimiterNotSet | ContextCanceled | TransportError string

text \<open>\<open>type Result struct { URL string; Content string; Error error }\<close>\<close>

record Result =
  URL :: string
  Content :: string
  Error :: "err option"

text \<open>
  Control points of the goroutine started by \<open>NewRateLimiter\<close>:
  \<open>T_Start\<close> before \<open>time.NewTicker\<close>, \<open>T_Select\<close> in the \<open>select\<close>,
  \<open>T_Send\<close> inside \<open>limitCh <- struct{}{}\<close> with a full buffer, \<open>T_Done\<close> after
  \<open>return\<close>, \<open>T_Panic\<close> when the goroutine panicked. (A panic ends the whole
  process; the model only stops this goroutine, which adds runs and removes none.)
\<close>

datatype ticker_state = T_Start | T_Select | T_Send | T_Done | T_Panic panic

text \<open>
  \<open>type RateLimiter struct { limitCh chan struct{}; stopCh chan struct{} }\<close> together
  with the goroutine it owns. \<open>limitCh\<close> is the number of buffered tokens (the elements
  are \<open>struct{}\<close>); its capacity is \<open>intervals\<close>. \<open>stopCh\<close> is unbuffered and so holds
  nothing: a send on it is a rendezvous with the goroutine's \<open>select\<close>.
\<close>

record RateLimiter =
  timeSpan :: int
  intervals :: int
  limitCh :: nat
  ticker :: ticker_state

text \<open>Go's integer division truncates toward zero.\<close>

definition go_quot :: "int \<Rightarrow> int \<Rightarrow> int" where
  "go_quot a b = sgn a * sgn b * (\<bar>a\<bar> div \<bar>b\<bar>)"

text \<open>
  \<open>NewRateLimiter\<close>: \<open>make(chan struct{}, intervals)\<close> panics for a negative size;
  otherwise both channels are made, the goroutine is started and the handle returned.
  There is no error result.
\<close>

definition NewRateLimiter :: "int \<Rightarrow> int \<Rightarrow> panic + RateLimiter" where
  "NewRateLimiter ts n =
     (if n < 0 then Inl MakechanSizeOutOfRange
      else Inr \<lparr>timeSpan = ts, intervals = n, limitCh = 0, ticker = T_Start\<rparr>)"

text \<open>
  First step of the goroutine: \<open>time.NewTicker(timeSpan / time.Duration(intervals))\<close>.
  The division panics for a zero divisor, \<open>NewTicker\<close> panics for a non-positive period.
\<close>

definition ticker_start :: "RateLimiter \<Rightarrow> ticker_state" where
  "ticker_start rl =
     (if intervals rl = 0 then T_Panic IntegerDivideByZero
      else if go_quot (timeSpan rl) (intervals rl) \<le> 0 then T_Panic NonPositiveTickerInterval
      else T_Select)"

definition capacity :: "RateLimiter \<Rightarrow> nat" where
  "capacity rl = nat (intervals rl)"

text \<open>A receive \<open><-rl.limitCh\<close>: ready when a token is buffered, and takes one.\<close>

definition take_token :: "RateLimiter \<Rightarrow> RateLimiter option" where
  "take_token rl = (if 0 < limitCh rl then Some (rl\<lparr>limitCh := limitCh rl - 1\<rparr>) else None)"

text \<open>
  \<open>Wait\<close>: \<open>select { case <-rl.limitCh: return true; case <-ctx.Done(): return false }\<close>.
  The first argument is the branch the runtime takes (it chooses among the ready ones),
  the second whether \<open>ctx\<close> is cancelled. \<open>None\<close>: that branch is not ready.
\<close>

datatype wait_branch = TakeToken | SeeDone

fun Wait :: "wait_branch \<Rightarrow> bool \<Rightarrow> RateLimiter \<Rightarrow> (bool \<times> RateLimiter) option" where
  "Wait TakeToken c rl = (case take_token rl of None \<Rightarrow> None | Some r \<Rightarrow> Some (True, r))"
| "Wait SeeDone c rl = (if c then Some (False, rl) else None)"

text \<open>
  \<open>Stop\<close>: \<open>rl.stopCh <- struct{}{}\<close> on the unbuffered channel. The send completes
  only while the goroutine is in its \<open>select\<close>, which then returns.
\<close>

definition Stop :: "RateLimiter \<Rightarrow> RateLimiter option" where
  "Stop rl = (if ticker rl = T_Select then Some (rl\<lparr>ticker := T_Done\<rparr>) else None)"

text \<open>
  \<open>type RateLimitedScraper struct\<close>. \<open>client\<close> is what \<open>s.client.Do\<close> answers for a
  request bound to a context (cancelled or not) and a URL: an error or a status code.
  A \<open>ScrapeFunc\<close> gets the context and the URL.
\<close>

type_synonym ScrapeFunc = "bool \<Rightarrow> string \<Rightarrow> Result"

record RateLimitedScraper =
  client :: "bool \<Rightarrow> string \<Rightarrow> err + nat"
  rlm :: "RateLimiter option"
  maxWorkers :: int
  scrapeFunc :: ScrapeFunc

fun dec :: "nat \<Rightarrow> string" where
  "dec n = (if n < 10 then [char_of (48 + n)] else dec (n div 10) @ [char_of (48 + n mod 10)])"

declare dec.simps [simp del]

text \<open>\<open>scrapeURL\<close>: one GET; the error of \<open>client.Do\<close>, or \<open>"Status: %d"\<close>.\<close>

definition scrapeURL :: "(bool \<Rightarrow> string \<Rightarrow> err + nat) \<Rightarrow> ScrapeFunc" where
  "scrapeURL cl c url =
     (case cl c url of
        Inl e \<Rightarrow> \<lparr>URL = url, Content = [], Error = Some e\<rparr>
      | Inr code \<Rightarrow> \<lparr>URL = url, Content = ''Status: '' @ dec code, Error = None\<rparr>)"

text \<open>\<open>NewScraper(rps, maxWorkers)\<close>; the first argument is the network behind the client.\<close>

definition NewScraper :: "(bool \<Rightarrow> string \<Rightarrow> err + nat) \<Rightarrow> int \<Rightarrow> int \<Rightarrow> RateLimitedScraper" where
  "NewScraper net rps mw =
     \<lparr>client = net, rlm = None, maxWorkers = mw, scrapeFunc = scrapeURL net\<rparr>"

definition SetRateLimit :: "int \<Rightarrow> int \<Rightarrow> RateLimitedScraper \<Rightarrow> panic + RateLimitedScraper" where
  "SetRateLimit ts n s =
     (case NewRateLimiter ts n of Inl p \<Rightarrow> Inl p | Inr r \<Rightarrow> Inr (s\<lparr>rlm := Some r\<rparr>))"

definition SetScrapeFunc :: "ScrapeFunc \<Rightarrow> RateLimitedScraper \<Rightarrow> RateLimitedScraper" where
  "SetScrapeFunc fn s = s\<lparr>scrapeFunc := fn\<rparr>"

section \<open>The rate limiter's goroutine and its clients\<close>

text \<open>
  Steps of the goroutine of \<open>NewRateLimiter\<close>; the first argument says whether \<open>ctx\<close> is
  cancelled. \<open>Tick\<close>: \<open>case <-ticker.C\<close> followed by the send on \<open>limitCh\<close>, which
  completes at once when the buffer has room and otherwise leaves the goroutine inside
  the send. \<open>Sent\<close>: that pending send completes. \<open>SeeCtx\<close>: \<open>case <-ctx.Done()\<close>.
  The case \<open><-stopCh\<close> is the other half of \<open>Stop\<close>.
\<close>

datatype tick_action = Start | Tick | Sent | SeeCtx

fun ticker_step :: "bool \<Rightarrow> tick_action \<Rightarrow> RateLimiter \<Rightarrow> RateLimiter option" where
  "ticker_step c Start rl =
     (if ticker rl = T_Start then Some (rl\<lparr>ticker := ticker_start rl\<rparr>) else None)"
| "ticker_step c Tick rl =
     (if ticker rl = T_Select
      then (if limitCh rl < capacity rl then Some (rl\<lparr>limitCh := limitCh rl + 1\<rparr>)
            else Some (rl\<lparr>ticker := T_Send\<rparr>))
      else None)"
| "ticker_step c Sent rl =
     (if ticker rl = T_Send \<and> limitCh rl < capacity rl
      then Some (rl\<lparr>limitCh := limitCh rl + 1, ticker := T_Select\<rparr>) else None)"
| "ticker_step c SeeCtx rl =
     (if ticker rl = T_Select \<and> c then Some (rl\<lparr>ticker := T_Done\<rparr>) else None)"

text \<open>
  A limiter with its context and its clients: the goroutine's steps, cancellation of the
  context, and calls of \<open>Wait\<close> and \<open>Stop\<close> by any number of callers. \<open>waited\<close> logs what
  the completed \<open>Wait\<close> calls returned, \<open>stopped\<close> counts the completed \<open>Stop\<close> calls.
\<close>

record limiter_sys =
  lctx :: bool
  lim :: RateLimiter
  waited :: "bool list"
  stopped :: nat

datatype lim_event = Gor tick_action | CancelCtx | CallWait wait_branch | CallStop

fun lim_fire :: "lim_event \<Rightarrow> limiter_sys \<Rightarrow> limiter_sys option" where
  "lim_fire (Gor a) s =
     (case ticker_step (lctx s) a (lim s) of
        None \<Rightarrow> None | Some r \<Rightarrow> Some (s\<lparr>lim := r\<rparr>))"
| "lim_fire CancelCtx s = (if lctx s then None else Some (s\<lparr>lctx := True\<rparr>))"
| "lim_fire (CallWait b) s =
     (case Wait b (lctx s) (lim s) of
        None \<Rightarrow> None | Some (v, r) \<Rightarrow> Some (s\<lparr>lim := r, waited := waited s @ [v]\<rparr>))"
| "lim_fire CallStop s =
     (case Stop (lim s) of
        None \<Rightarrow> None | Some r \<Rightarrow> Some (s\<lparr>lim := r, stopped := stopped s + 1\<rparr>))"

fun lim_run :: "lim_event list \<Rightarrow> limiter_sys \<Rightarrow> limiter_sys option" where
  "lim_run [] s = Some s"
| "lim_run (e # es) s = (case lim_fire e s of None \<Rightarrow> None | Some t \<Rightarrow> lim_run es t)"

definition lim_init :: "RateLimiter \<Rightarrow> limiter_sys" where
  "lim_init r = \<lparr>lctx = False, lim = r, waited = [], stopped = 0\<rparr>"

text \<open>Tokens put into \<open>limitCh\<close> by a step of the goroutine.\<close>

definition issues :: "limiter_sys \<Rightarrow> lim_event \<Rightarrow> nat" where
  "issues s e =
     (case e of
        Gor Tick \<Rightarrow> (if limitCh (lim s) < capacity (lim s) then 1 else 0)
      | Gor Sent \<Rightarrow> 1
      | _ \<Rightarrow> 0)"

fun issued :: "lim_event list \<Rightarrow> limiter_sys \<Rightarrow> nat" where
  "issued [] s = 0"
| "issued (e # es) s =
     (case lim_fire e s of None \<Rightarrow> 0 | Some t \<Rightarrow> issues s e + issued es t)"

text \<open>How many of the logged \<open>Wait\<close> calls returned true.\<close>

definition trues :: "bool list \<Rightarrow> nat" where
  "trues vs = length (filter (\<lambda>v. v) vs)"

text \<open>The limiter of \<open>NewRateLimiter(ctx, 1000, 2)\<close>, used in the examples.\<close>

definition lim2 :: RateLimiter where
  "lim2 = \<lparr>timeSpan = 1000, intervals = 2, limitCh = 0, ticker = T_Start\<rparr>"

section \<open>ScrapeURLs\<close>

text \<open>
  Control points of one worker goroutine: \<open>W_Recv\<close> at \<open>for url := range urlChan\<close>,
  \<open>W_Token url\<close> in the outer \<open>select\<close>, \<open>W_Scrape url\<close> inside \<open>s.scrapeFunc(ctx, url)\<close>,
  \<open>W_Send result\<close> in the inner \<open>select\<close>, \<open>W_Done\<close> after \<open>wg.Done()\<close>.
  Control points of the last goroutine: in \<open>wg.Wait()\<close>, before \<open>close(results)\<close>,
  inside \<open>s.rlm.Stop()\<close>, returned.
\<close>

datatype worker_state = W_Recv | W_Token string | W_Scrape string | W_Send Result | W_Done

datatype sup_state = S_Wait | S_Close | S_Stop | S_Done

text \<open>
  The state of one call of \<open>ScrapeURLs\<close>: the context, the URLs the first goroutine has
  still to send and whether it has returned (closing \<open>urlChan\<close>), the two channel
  buffers with their common capacity \<open>len(urls)\<close>, the workers, the last goroutine, the
  limiter, and what the caller has received from the returned channel so far.
\<close>

record pool =
  ctx :: bool
  todo :: "string list"
  urlClosed :: bool
  urlChan :: "string list"
  chanCap :: nat
  workers :: "worker_state list"
  results :: "Result list"
  closed :: bool
  sup :: sup_state
  rl :: RateLimiter
  got :: "Result list"

text \<open>
  The synchronous part of \<open>ScrapeURLs(ctx, urls)\<close>: the nil check, the two \<open>make\<close>s and
  the \<open>go\<close> statements (\<open>maxWorkers\<close> workers; none when it is not positive).
\<close>

definition ScrapeURLs :: "RateLimitedScraper \<Rightarrow> bool \<Rightarrow> string list \<Rightarrow> err + pool" where
  "ScrapeURLs s c urls =
     (case rlm s of
        None \<Rightarrow> Inl RateLimiterNotSet
      | Some r \<Rightarrow>
          Inr \<lparr>ctx = c, todo = urls, urlClosed = False, urlChan = [],
               chanCap = length urls,
               workers = replicate (nat (maxWorkers s)) W_Recv,
               results = [], closed = False, sup = S_Wait, rl = r, got = []\<rparr>)"

datatype action =
    Cancel
  | Seed | SeedStop | SeedEnd
  | Take nat | Leave nat | Token nat | Quit nat | Scrape nat | Emit nat
  | Waited | CloseResults | StopSend
  | Ticker tick_action
  | Receive

definition set_worker :: "nat \<Rightarrow> worker_state \<Rightarrow> pool \<Rightarrow> pool" where
  "set_worker i w p = p\<lparr>workers := (workers p)[i := w]\<rparr>"

definition worker_at :: "pool \<Rightarrow> nat \<Rightarrow> worker_state option" where
  "worker_at p i = (if i < length (workers p) then Some (workers p ! i) else None)"

text \<open>
  One step. \<open>None\<close>: the step is not enabled (the goroutine is elsewhere, or it blocks).
  \<open>Seed\<close>/\<open>SeedStop\<close> are the two cases of the seeding \<open>select\<close>, \<open>SeedEnd\<close> the end of
  its loop with the deferred \<open>close(urlChan)\<close>. \<open>Take\<close>/\<open>Leave\<close>: the \<open>range\<close> yields a
  URL, or ends on the closed and drained channel. \<open>Token\<close>/\<open>Quit\<close>: the cases
  \<open><-s.rlm.LimitCh(ctx)\<close> and \<open><-ctx.Done()\<close> of the outer \<open>select\<close>; \<open>Emit\<close>/\<open>Quit\<close>: those of the inner one. \<open>Scrape\<close>: the scrape
  function returns (it is taken to return: the default one has the client's timeout), and
  it sees the context as it is at that moment. \<open>Receive\<close>: the caller takes the
  next result. All goroutines share the one context, as the comments in \<open>ScrapeURLs\<close>
  expect, and the limiter serves this call alone: no goroutine of another call sends on
  its \<open>stopCh\<close> or receives from its \<open>limitCh\<close>.
\<close>

fun fire :: "ScrapeFunc \<Rightarrow> action \<Rightarrow> pool \<Rightarrow> pool option" where
  "fire fn Cancel p = (if ctx p then None else Some (p\<lparr>ctx := True\<rparr>))"
| "fire fn Seed p =
     (case todo p of
        [] \<Rightarrow> None
      | u # us \<Rightarrow>
          if \<not> urlClosed p \<and> length (urlChan p) < chanCap p
          then Some (p\<lparr>todo := us, urlChan := urlChan p @ [u]\<rparr>) else None)"
| "fire fn SeedStop p =
     (if \<not> urlClosed p \<and> todo p \<noteq> [] \<and> ctx p then Some (p\<lparr>urlClosed := True\<rparr>) else None)"
| "fire fn SeedEnd p =
     (if \<not> urlClosed p \<and> todo p = [] then Some (p\<lparr>urlClosed := True\<rparr>) else None)"
| "fire fn (Take i) p =
     (case (worker_at p i, urlChan p) of
        (Some W_Recv, u # us) \<Rightarrow> Some (set_worker i (W_Token u) (p\<lparr>urlChan := us\<rparr>))
      | _ \<Rightarrow> None)"
| "fire fn (Leave i) p =
     (if worker_at p i = Some W_Recv \<and> urlChan p = [] \<and> urlClosed p
      then Some (set_worker i W_Done p) else None)"
| "fire fn (Token i) p =
     (case worker_at p i of
        Some (W_Token u) \<Rightarrow>
          (case take_token (rl p) of
             None \<Rightarrow> None
           | Some r \<Rightarrow> Some (set_worker i (W_Scrape u) (p\<lparr>rl := r\<rparr>)))
      | _ \<Rightarrow> None)"
| "fire fn (Quit i) p =
     (case worker_at p i of
        Some (W_Token u) \<Rightarrow> if ctx p then Some (set_worker i W_Done p) else None
      | Some (W_Send r) \<Rightarrow> if ctx p then Some (set_worker i W_Done p) else None
      | _ \<Rightarrow> None)"
| "fire fn (Scrape i) p =
     (case worker_at p i of
        Some (W_Scrape u) \<Rightarrow> Some (set_worker i (W_Send (fn (ctx p) u)) p)
      | _ \<Rightarrow> None)"
| "fire fn (Emit i) p =
     (case worker_at p i of
        Some (W_Send r) \<Rightarrow>
          if length (results p) < chanCap p
          then Some (set_worker i W_Recv (p\<lparr>results := results p @ [r]\<rparr>)) else None
      | _ \<Rightarrow> None)"
| "fire fn Waited p =
     (if sup p = S_Wait \<and> list_all (\<lambda>w. w = W_Done) (workers p)
      then Some (p\<lparr>sup := S_Close\<rparr>) else None)"
| "fire fn CloseResults p =
     (if sup p = S_Close then Some (p\<lparr>closed := True, sup := S_Stop\<rparr>) else None)"
| "fire fn StopSend p =
     (if sup p = S_Stop
      then (case Stop (rl p) of None \<Rightarrow> None | Some r \<Rightarrow> Some (p\<lparr>rl := r, sup := S_Done\<rparr>))
      else None)"
| "fire fn (Ticker a) p =
     (case ticker_step (ctx p) a (rl p) of None \<Rightarrow> None | Some r \<Rightarrow> Some (p\<lparr>rl := r\<rparr>))"
| "fire fn Receive p =
     (case results p of
        [] \<Rightarrow> None
      | r # rs \<Rightarrow> Some (p\<lparr>results := rs, got := got p @ [r]\<rparr>))"

fun run :: "ScrapeFunc \<Rightarrow> action list \<Rightarrow> pool \<Rightarrow> pool option" where
  "run fn [] p = Some p"
| "run fn (a # as) p = (case fire fn a p of None \<Rightarrow> None | Some q \<Rightarrow> run fn as q)"

section \<open>Measures and invariants of a run of ScrapeURLs\<close>

text \<open>The steps other than cancellation that a state could take, and those it can.\<close>

definition candidates :: "pool \<Rightarrow> action list" where
  "candidates p =
     [Seed, SeedStop, SeedEnd, Waited, CloseResults, StopSend, Receive,
      Ticker Start, Ticker Tick, Ticker Sent, Ticker SeeCtx]
     @ concat (map (\<lambda>i. [Take i, Leave i, Token i, Quit i, Scrape i, Emit i])
                   [0 ..< length (workers p)])"

definition enabled :: "ScrapeFunc \<Rightarrow> pool \<Rightarrow> action list" where
  "enabled fn p = filter (\<lambda>a. fire fn a p \<noteq> None) (candidates p)"

text \<open>A state in which nothing but a cancellation can happen any more.\<close>

definition quiescent :: "ScrapeFunc \<Rightarrow> pool \<Rightarrow> bool" where
  "quiescent fn p = (enabled fn p = [])"

text \<open>A limiter whose goroutine has not returned and whose period is valid.\<close>

definition live :: "RateLimiter \<Rightarrow> bool" where
  "live r = (0 < intervals r \<and> 0 < go_quot (timeSpan r) (intervals r)
             \<and> (ticker r = T_Start \<or> ticker r = T_Select \<or> ticker r = T_Send))"

text \<open>A worker that holds an item: 1, else 0.\<close>

fun busy :: "worker_state \<Rightarrow> nat" where
  "busy W_Recv = 0"
| "busy W_Done = 0"
| "busy w = 1"

text \<open>
  A bound on the steps still possible: every step of \<open>fire\<close> lowers \<open>rank\<close>. An item
  weighs less the further it has moved (waiting to be sent, in \<open>urlChan\<close>, with a worker,
  in \<open>results\<close>); the limiter's goroutine weighs by the room left in \<open>limitCh\<close>.
\<close>

fun wrank :: "worker_state \<Rightarrow> nat" where
  "wrank W_Recv = 1"
| "wrank (W_Token u) = 7"
| "wrank (W_Scrape u) = 4"
| "wrank (W_Send r) = 3"
| "wrank W_Done = 0"

fun trank :: "ticker_state \<Rightarrow> nat" where
  "trank T_Start = 3"
| "trank T_Select = 2"
| "trank T_Send = 1"
| "trank T_Done = 0"
| "trank (T_Panic x) = 0"

fun srank :: "sup_state \<Rightarrow> nat" where
  "srank S_Wait = 3"
| "srank S_Close = 2"
| "srank S_Stop = 1"
| "srank S_Done = 0"

definition rank :: "pool \<Rightarrow> nat" where
  "rank p =
     (if ctx p then 0 else 1)
     + (if urlClosed p then 0 else 8 * length (todo p) + 1)
     + 7 * length (urlChan p)
     + sum_list (map wrank (workers p))
     + length (results p)
     + srank (sup p)
     + 2 * (capacity (rl p) - limitCh (rl p)) + trank (ticker (rl p))"

text \<open>
  The results an item still in the pool will give when the context stays uncancelled,
  and the results already produced.
\<close>

fun wres :: "ScrapeFunc \<Rightarrow> worker_state \<Rightarrow> Result multiset" where
  "wres fn (W_Token u) = {#fn False u#}"
| "wres fn (W_Scrape u) = {#fn False u#}"
| "wres fn (W_Send r) = {#r#}"
| "wres fn w = {#}"

definition account :: "ScrapeFunc \<Rightarrow> pool \<Rightarrow> Result multiset" where
  "account fn p =
     image_mset (fn False) (mset (todo p) + mset (urlChan p))
     + sum_list (map (wres fn) (workers p))
     + mset (results p) + mset (got p)"

text \<open>Items never outnumber the channels' capacity \<open>len(urls)\<close>.\<close>

definition inv_cap :: "pool \<Rightarrow> bool" where
  "inv_cap p =
     (length (todo p) + length (urlChan p) + sum_list (map busy (workers p))
      + length (results p) + length (got p) \<le> chanCap p)"

text \<open>The last goroutine passes \<open>wg.Wait()\<close> only when every worker has returned, and
  \<open>results\<close> is closed exactly from then on.\<close>

definition inv_sup :: "pool \<Rightarrow> bool" where
  "inv_sup p =
     ((sup p \<noteq> S_Wait \<longrightarrow> list_all (\<lambda>w. w = W_Done) (workers p))
      \<and> (closed p = (sup p = S_Stop \<or> sup p = S_Done)))"

text \<open>Without cancellation the limiter's goroutine returns only through \<open>Stop\<close>.\<close>

definition inv_lim :: "pool \<Rightarrow> bool" where
  "inv_lim p =
     (0 < intervals (rl p) \<and> 0 < go_quot (timeSpan (rl p)) (intervals (rl p))
      \<and> (ticker (rl p) = T_Start \<or> ticker (rl p) = T_Select \<or> ticker (rl p) = T_Send
          \<or> (ticker (rl p) = T_Done \<and> (ctx p \<or> sup p = S_Done))))"

text \<open>Without cancellation a worker returns only from the closed and drained \<open>urlChan\<close>,
  which is closed only when every URL has been sent.\<close>

definition inv_drain :: "pool \<Rightarrow> bool" where
  "inv_drain p =
     (\<not> ctx p \<longrightarrow>
        (W_Done \<in> set (workers p) \<longrightarrow> urlClosed p \<and> urlChan p = [])
        \<and> (urlClosed p \<longrightarrow> todo p = []))"

text \<open>Every URL in the pool was submitted, and every result is what the scrape function
  returned for a submitted URL.\<close>

fun wfrom :: "ScrapeFunc \<Rightarrow> string set \<Rightarrow> worker_state \<Rightarrow> bool" where
  "wfrom fn U (W_Token u) = (u \<in> U)"
| "wfrom fn U (W_Scrape u) = (u \<in> U)"
| "wfrom fn U (W_Send r) = (\<exists>c. \<exists>u \<in> U. r = fn c u)"
| "wfrom fn U w = True"

definition inv_from :: "ScrapeFunc \<Rightarrow> string set \<Rightarrow> pool \<Rightarrow> bool" where
  "inv_from fn U p =
     (set (todo p) \<subseteq> U \<and> set (urlChan p) \<subseteq> U
      \<and> (\<forall>w \<in> set (workers p). wfrom fn U w)
      \<and> (\<forall>r \<in> set (results p) \<union> set (got p). \<exists>c. \<exists>u \<in> U. r = fn c u))"

text \<open>The invariants that need nothing of the limiter.\<close>

definition inv_safe :: "ScrapeFunc \<Rightarrow> string set \<Rightarrow> pool \<Rightarrow> bool" where
  "inv_safe fn U p = (inv_cap p \<and> inv_sup p \<and> inv_drain p \<and> inv_from fn U p)"

text \<open>
  An example: a client that refuses a URL without an \<open>http\<close> or \<open>https\<close> scheme
  before anything else, returns the context's error (wrapped, in Go) for a request whose
  context is cancelled, and otherwise gets the answer 200; the scraper of
  \<open>NewScraper(5, 1)\<close> after \<open>SetRateLimit(ctx, 1000, 1)\<close>; and the result of its
  scrape function for \<open>"http://a"\<close>.
\<close>

definition has_scheme :: "string \<Rightarrow> bool" where
  "has_scheme u = (take 7 u = ''http://'' \<or> take 8 u = ''https://'')"

definition net200 :: "bool \<Rightarrow> string \<Rightarrow> err + nat" where
  "net200 c u =
     (if \<not> has_scheme u then Inl (TransportError ''unsupported protocol scheme'')
      else if c then Inl ContextCanceled else Inr 200)"

definition lim1 :: RateLimiter where
  "lim1 = \<lparr>timeSpan = 1000, intervals = 1, limitCh = 0, ticker = T_Start\<rparr>"

definition scraper1 :: RateLimitedScraper where
  "scraper1 = (NewScraper net200 5 1)\<lparr>rlm := Some lim1\<rparr>"

definition res_a :: Result where
  "res_a = \<lparr>URL = ''http://a'', Content = ''Status: '' @ dec 200, Error = None\<rparr>"

text \<open>
  Runs of \<open>scraper1.ScrapeURLs(ctx, ["http://a"])\<close>: \<open>sched1\<close> without cancellation;
  \<open>sched2\<close> with the limiter's buffer full when the context is cancelled;
  \<open>sched3\<close> with the context cancelled while the worker is about to scrape.
\<close>

definition start1 :: pool where
  "start1 = \<lparr>ctx = False, todo = [''http://a''], urlClosed = False, urlChan = [], chanCap = 1,
      workers = [W_Recv], results = [], closed = False, sup = S_Wait, rl = lim1, got = []\<rparr>"



definition sched2 :: "action list" where
  "sched2 = [Ticker Start, Ticker Tick, Ticker Tick, Cancel, SeedStop, Leave 0, Waited,
      CloseResults]"

definition final2 :: pool where
  "final2 = \<lparr>ctx = True, todo = [''http://a''], urlClosed = True, urlChan = [], chanCap = 1,
      workers = [W_Done], results = [], closed = True, sup = S_Stop,
      rl = lim1\<lparr>limitCh := 1, ticker := T_Send\<rparr>, got = []\<rparr>"

definition res_cancelled :: Result where
  "res_cancelled = \<lparr>URL = ''http://a'', Content = [], Error = Some ContextCanceled\<rparr>"

definition sched3 :: "action list" where
  "sched3 = [Seed, SeedEnd, Take 0, Ticker Start, Ticker Tick, Token 0, Cancel, Scrape 0,
      Emit 0, Receive, Leave 0, Waited, CloseResults, Ticker SeeCtx]"

definition final3 :: pool where
  "final3 = \<lparr>ctx = True, todo = [], urlClosed = True, urlChan = [], chanCap = 1,
      workers = [W_Done], results = [], closed = True, sup = S_Stop,
      rl = lim1\<lparr>ticker := T_Done\<rparr>, got = [res_cancelled]\<rparr>"

text \<open>\<open>sched5\<close>: no cancellation, and the limiter's buffer full again at the end.\<close>

definition sched5 :: "action list" where
  "sched5 = [Ticker Start, Ticker Tick, Ticker Tick, Seed, SeedEnd, Take 0, Token 0,
      Ticker Sent, Ticker Tick, Scrape 0, Emit 0, Leave 0, Waited, CloseResults, Receive]"

definition final5 :: pool where
  "final5 = \<lparr>ctx = False, todo = [], urlClosed = True, urlChan = [], chanCap = 1,
      workers = [W_Done], results = [], closed = True, sup = S_Stop,
      rl = lim1\<lparr>limitCh := 1, ticker := T_Send\<rparr>, got = [res_a]\<rparr>"










section \<open>Construction and configuration errors\<close>

lemma take_token_iff [simp]:
  "take_token r = (if 0 < limitCh r then Some (r\<lparr>limitCh := limitCh r - 1\<rparr>) else None)"
  by (rule take_token_def)

text \<open>
  C10. \<open>NewScraper(rps, maxWorkers)\<close> does not use \<open>rps\<close> and attaches no rate limiter:
  the scraper it builds is the same for every \<open>rps\<close>, its \<open>rlm\<close> is nil, and
  \<open>ScrapeURLs\<close> on it (also after \<open>SetScrapeFunc\<close>) returns the error
  "rate limiter not set". The rate shape enters only through \<open>SetRateLimit\<close>, which
  stores the limiter made from its own \<open>(timeSpan, intervals)\<close>.
\<close>

theorem NewScraper_ignores_rps:
  "NewScraper net rps mw = NewScraper net rps' mw
   \<and> rlm (NewScraper net rps mw) = None
   \<and> ScrapeURLs (NewScraper net rps mw) c urls = Inl RateLimiterNotSet
   \<and> ScrapeURLs (SetScrapeFunc fn (NewScraper net rps mw)) c urls = Inl RateLimiterNotSet
   \<and> SetRateLimit ts n (NewScraper net rps mw) =
       (case NewRateLimiter ts n of
          Inl e \<Rightarrow> Inl e
        | Inr r \<Rightarrow> Inr ((NewScraper net rps' mw)\<lparr>rlm := Some r\<rparr>))"
  by (simp add: NewScraper_def ScrapeURLs_def SetScrapeFunc_def SetRateLimit_def
      split: sum.splits)

text \<open>
  C6. \<open>ScrapeURLs\<close> returns an error exactly when no rate limiter is attached; the error
  is then "rate limiter not set" and no pool state (no channel, no goroutine) exists.
  With a limiter attached the call returns the running pool, whatever the URLs, the
  context and the number of workers.
\<close>

theorem ScrapeURLs_error_iff_no_limiter:
  "(rlm s = None \<longrightarrow> ScrapeURLs s c urls = Inl RateLimiterNotSet)
   \<and> (\<forall>e. ScrapeURLs s c urls = Inl e \<longrightarrow> e = RateLimiterNotSet)
   \<and> ((\<exists>e. ScrapeURLs s c urls = Inl e) = (rlm s = None))
   \<and> ((\<exists>p. ScrapeURLs s c urls = Inr p) = (rlm s \<noteq> None))"
  by (auto simp: ScrapeURLs_def split: option.splits)

theorem ScrapeURLs_error_iff_no_limiter_witness:
  "rlm (NewScraper (\<lambda>c u. Inr 200) 5 3) = None
   \<and> ScrapeURLs (NewScraper (\<lambda>c u. Inr 200) 5 3) False [''a'', ''b''] = Inl RateLimiterNotSet"
  using ScrapeURLs_error_iff_no_limiter
    [of "NewScraper (\<lambda>c u. Inr 200) 5 3" False "[''a'', ''b'']"]
  by (simp add: NewScraper_def)

text \<open>
  C3, as the code has it. \<open>NewRateLimiter\<close> does not validate \<open>intervals\<close> and has no
  error result. For \<open>intervals < 0\<close> it panics in \<open>make\<close>, before the goroutine exists;
  for \<open>intervals = 0\<close> it returns a handle, and the goroutine's first step divides by
  zero.
\<close>

theorem NewRateLimiter_nonpositive:
  assumes "n \<le> 0"
  shows "case NewRateLimiter ts n of
           Inl p \<Rightarrow> n < 0 \<and> p = MakechanSizeOutOfRange
         | Inr r \<Rightarrow> n = 0 \<and> ticker r = T_Start
                    \<and> ticker_step c Start r = Some (r\<lparr>ticker := T_Panic IntegerDivideByZero\<rparr>)"
  using assms by (simp add: NewRateLimiter_def ticker_start_def)

theorem NewRateLimiter_nonpositive_witness:
  "(-1::int) \<le> 0 \<and> NewRateLimiter 1000000000 (-1) = Inl MakechanSizeOutOfRange"
  using NewRateLimiter_nonpositive [where n = "-1" and ts = 1000000000 and c = False]
  by (simp split: sum.splits)

text \<open>
  The claim of C3 fails at \<open>NewRateLimiter(ctx, time.Second, 0)\<close>: a handle is returned,
  the goroutine is started, and its period computation panics.
\<close>

theorem NewRateLimiter_zero_counterexample:
  "NewRateLimiter 1000000000 0
     = Inr \<lparr>timeSpan = 1000000000, intervals = 0, limitCh = 0, ticker = T_Start\<rparr>
   \<and> ticker_step False Start
       \<lparr>timeSpan = 1000000000, intervals = 0, limitCh = 0, ticker = T_Start\<rparr>
     = Some \<lparr>timeSpan = 1000000000, intervals = 0, limitCh = 0,
             ticker = T_Panic IntegerDivideByZero\<rparr>"
  by (simp add: NewRateLimiter_def ticker_start_def)

section \<open>The token buffer\<close>

lemma ticker_step_bounded:
  "ticker_step c a r = Some r' \<Longrightarrow> limitCh r \<le> capacity r \<Longrightarrow>
   limitCh r' \<le> capacity r' \<and> intervals r' = intervals r \<and> timeSpan r' = timeSpan r"
  by (cases a) (auto simp: capacity_def split: if_splits)

lemma Wait_bounded:
  "Wait b c r = Some (v, r') \<Longrightarrow> limitCh r \<le> capacity r \<Longrightarrow>
   limitCh r' \<le> capacity r' \<and> intervals r' = intervals r \<and> timeSpan r' = timeSpan r"
  by (cases b) (auto simp: capacity_def split: if_splits)

lemma Stop_bounded:
  "Stop r = Some r' \<Longrightarrow> limitCh r \<le> capacity r \<Longrightarrow>
   limitCh r' \<le> capacity r' \<and> intervals r' = intervals r \<and> timeSpan r' = timeSpan r"
  by (auto simp: Stop_def capacity_def split: if_splits)

lemma lim_fire_bounded:
  "lim_fire e s = Some t \<Longrightarrow> limitCh (lim s) \<le> capacity (lim s) \<Longrightarrow>
   limitCh (lim t) \<le> capacity (lim t) \<and> intervals (lim t) = intervals (lim s)"
  by (cases e)
     (auto split: option.splits if_splits prod.splits
           dest: ticker_step_bounded Wait_bounded Stop_bounded)

lemma lim_run_bounded:
  "lim_run es s = Some t \<Longrightarrow> limitCh (lim s) \<le> capacity (lim s) \<Longrightarrow>
   limitCh (lim t) \<le> capacity (lim t) \<and> intervals (lim t) = intervals (lim s)"
proof (induction es arbitrary: s)
  case Nil
  then show ?case by simp
next
  case (Cons e es)
  then obtain u where u: "lim_fire e s = Some u" "lim_run es u = Some t"
    by (auto split: option.splits)
  from lim_fire_bounded [OF u(1) Cons.prems(2)] Cons.IH [OF u(2)]
  show ?case by simp
qed

text \<open>
  C2. For a limiter made by \<open>NewRateLimiter(ctx, timeSpan, intervals)\<close>, after any
  sequence of steps of its goroutine, cancellation, and \<open>Wait\<close> and \<open>Stop\<close> calls, the
  number of tokens in \<open>limitCh\<close> is at most \<open>intervals\<close>.
\<close>

theorem tokens_bounded:
  assumes "NewRateLimiter ts n = Inr r" and "lim_run es (lim_init r) = Some s"
  shows "int (limitCh (lim s)) \<le> n \<and> intervals (lim s) = n"
proof -
  from assms(1) have r: "limitCh r = 0" "intervals r = n" "0 \<le> n"
    by (auto simp: NewRateLimiter_def split: if_splits)
  from lim_run_bounded [OF assms(2)] r
  have "limitCh (lim s) \<le> capacity (lim s)" "intervals (lim s) = n"
    by (simp_all add: lim_init_def)
  then show ?thesis using r by (simp add: capacity_def)
qed

theorem tokens_bounded_witness:
  "NewRateLimiter 1000 2 = Inr \<lparr>timeSpan = 1000, intervals = 2, limitCh = 0, ticker = T_Start\<rparr>
   \<and> lim_run [Gor Start, Gor Tick, Gor Tick, Gor Tick, CallWait TakeToken, Gor Sent, CancelCtx]
        (lim_init \<lparr>timeSpan = 1000, intervals = 2, limitCh = 0, ticker = T_Start\<rparr>)
      = Some \<lparr>lctx = True,
              lim = \<lparr>timeSpan = 1000, intervals = 2, limitCh = 2, ticker = T_Select\<rparr>,
              waited = [True], stopped = 0\<rparr>
   \<and> int (limitCh \<lparr>timeSpan = 1000, intervals = 2, limitCh = 2, ticker = T_Select\<rparr>) \<le> 2"
proof -
  have a: "NewRateLimiter 1000 2
      = Inr \<lparr>timeSpan = 1000, intervals = 2, limitCh = 0, ticker = T_Start\<rparr>"
    by (simp add: NewRateLimiter_def)
  have b: "lim_run [Gor Start, Gor Tick, Gor Tick, Gor Tick, CallWait TakeToken, Gor Sent, CancelCtx]
        (lim_init \<lparr>timeSpan = 1000, intervals = 2, limitCh = 0, ticker = T_Start\<rparr>)
      = Some \<lparr>lctx = True,
              lim = \<lparr>timeSpan = 1000, intervals = 2, limitCh = 2, ticker = T_Select\<rparr>,
              waited = [True], stopped = 0\<rparr>"
    by (simp add: lim_init_def ticker_start_def go_quot_def capacity_def)
  from tokens_bounded [OF a b] a b show ?thesis by simp
qed

section \<open>Wait\<close>

lemma Wait_cases:
  "Wait b c r = Some (v, r') \<Longrightarrow>
     (v \<and> b = TakeToken \<and> 0 < limitCh r \<and> r' = r\<lparr>limitCh := limitCh r - 1\<rparr>)
   \<or> (\<not> v \<and> b = SeeDone \<and> c \<and> r' = r)"
  by (cases b) (auto split: if_splits)

lemma Wait_blocks_iff: "(\<forall>b. Wait b c r = None) = (limitCh r = 0 \<and> \<not> c)"
proof
  assume a: "\<forall>b. Wait b c r = None"
  from a have "Wait TakeToken c r = None" "Wait SeeDone c r = None" by blast+
  then show "limitCh r = 0 \<and> \<not> c" by (auto split: if_splits)
next
  assume a: "limitCh r = 0 \<and> \<not> c"
  show "\<forall>b. Wait b c r = None"
  proof
    fix b show "Wait b c r = None" using a by (cases b) auto
  qed
qed

lemma trues_snoc [simp]: "trues (vs @ [v]) = trues vs + (if v then 1 else 0)"
  by (simp add: trues_def)

lemma lim_fire_conserves:
  "lim_fire e s = Some t \<Longrightarrow>
   limitCh (lim t) + trues (waited t) = limitCh (lim s) + trues (waited s) + issues s e"
proof (cases e)
  case (Gor a)
  assume "lim_fire e s = Some t"
  with Gor show ?thesis
    by (cases a) (auto simp: issues_def split: if_splits option.splits)
next
  case CancelCtx
  assume "lim_fire e s = Some t"
  with CancelCtx show ?thesis by (auto simp: issues_def split: if_splits)
next
  case (CallWait b)
  assume "lim_fire e s = Some t"
  with CallWait show ?thesis
    by (cases b) (auto simp: issues_def split: if_splits option.splits)
next
  case CallStop
  assume "lim_fire e s = Some t"
  with CallStop show ?thesis
    by (auto simp: issues_def Stop_def split: if_splits option.splits)
qed

lemma lim_run_conserves:
  "lim_run es s = Some t \<Longrightarrow>
   limitCh (lim t) + trues (waited t) = limitCh (lim s) + trues (waited s) + issued es s"
proof (induction es arbitrary: s)
  case Nil
  then show ?case by simp
next
  case (Cons e es)
  then obtain u where u: "lim_fire e s = Some u" "lim_run es u = Some t"
    by (auto split: option.splits)
  from lim_fire_conserves [OF u(1)] Cons.IH [OF u(2)] u(1)
  show ?case by simp
qed

text \<open>
  C5. A \<open>Wait\<close> call blocks exactly while no token is buffered and the context is not
  cancelled; when it returns true it has taken the token branch and removed exactly one
  token, when it returns false the context is cancelled and the limiter is unchanged.
  Over any interleaving of goroutine steps and calls by any number of callers, the tokens
  issued are exactly those still buffered plus one per \<open>Wait\<close> that returned true: no
  token is consumed twice.
\<close>

theorem Wait_takes_one_token:
  assumes "lim_run es (lim_init r) = Some s"
  shows "limitCh (lim s) + trues (waited s) = limitCh r + issued es (lim_init r)
    \<and> ((\<forall>b. Wait b (lctx s) (lim s) = None) = (limitCh (lim s) = 0 \<and> \<not> lctx s))
    \<and> (\<forall>b r'. Wait b (lctx s) (lim s) = Some (True, r') \<longrightarrow>
           b = TakeToken \<and> 0 < limitCh (lim s) \<and> r' = (lim s)\<lparr>limitCh := limitCh (lim s) - 1\<rparr>)
    \<and> (\<forall>b r'. Wait b (lctx s) (lim s) = Some (False, r') \<longrightarrow>
           b = SeeDone \<and> lctx s \<and> r' = lim s)"
proof -
  from lim_run_conserves [OF assms]
  have "limitCh (lim s) + trues (waited s) = limitCh r + issued es (lim_init r)"
    by (simp add: lim_init_def trues_def)
  moreover have "(\<forall>b. Wait b (lctx s) (lim s) = None) = (limitCh (lim s) = 0 \<and> \<not> lctx s)"
    by (rule Wait_blocks_iff)
  moreover have "\<forall>b r'. Wait b (lctx s) (lim s) = Some (True, r') \<longrightarrow>
           b = TakeToken \<and> 0 < limitCh (lim s) \<and> r' = (lim s)\<lparr>limitCh := limitCh (lim s) - 1\<rparr>"
    by (auto dest: Wait_cases)
  moreover have "\<forall>b r'. Wait b (lctx s) (lim s) = Some (False, r') \<longrightarrow>
           b = SeeDone \<and> lctx s \<and> r' = lim s"
    by (auto dest: Wait_cases)
  ultimately show ?thesis by blast
qed

theorem Wait_takes_one_token_witness:
  "lim_run [Gor Start, Gor Tick, Gor Tick, CallWait TakeToken, CancelCtx, CallWait SeeDone]
       (lim_init lim2)
     = Some \<lparr>lctx = True, lim = lim2\<lparr>limitCh := 1, ticker := T_Select\<rparr>,
             waited = [True, False], stopped = 0\<rparr>
   \<and> issued [Gor Start, Gor Tick, Gor Tick, CallWait TakeToken, CancelCtx, CallWait SeeDone]
       (lim_init lim2) = 2
   \<and> Wait TakeToken True (lim2\<lparr>limitCh := 1, ticker := T_Select\<rparr>)
       = Some (True, lim2\<lparr>limitCh := 0, ticker := T_Select\<rparr>)
   \<and> Wait SeeDone True (lim2\<lparr>limitCh := 1, ticker := T_Select\<rparr>)
       = Some (False, lim2\<lparr>limitCh := 1, ticker := T_Select\<rparr>)"
proof -
  have a: "lim_run [Gor Start, Gor Tick, Gor Tick, CallWait TakeToken, CancelCtx, CallWait SeeDone]
       (lim_init lim2)
     = Some \<lparr>lctx = True, lim = lim2\<lparr>limitCh := 1, ticker := T_Select\<rparr>,
             waited = [True, False], stopped = 0\<rparr>"
    by (simp add: lim_init_def lim2_def ticker_start_def go_quot_def capacity_def)
  have b: "issued [Gor Start, Gor Tick, Gor Tick, CallWait TakeToken, CancelCtx, CallWait SeeDone]
       (lim_init lim2) = 2"
    by (simp add: lim_init_def lim2_def ticker_start_def go_quot_def capacity_def issues_def)
  from Wait_takes_one_token [OF a] a b show ?thesis
    by (simp add: lim2_def trues_def)
qed

section \<open>Stop\<close>

text \<open>
  Once the goroutine has returned there is no receiver on \<open>stopCh\<close> any more: no
  later \<open>Stop\<close> call completes, whatever else happens.
\<close>

lemma returned_stays_returned:
  "ticker (lim s) = T_Done \<Longrightarrow> lim_fire e s = Some t \<Longrightarrow>
   ticker (lim t) = T_Done \<and> e \<noteq> CallStop"
proof (cases e)
  case (Gor a)
  assume "ticker (lim s) = T_Done" "lim_fire e s = Some t"
  with Gor show ?thesis by (cases a) (auto split: option.splits if_splits)
next
  case (CallWait b)
  assume "ticker (lim s) = T_Done" "lim_fire e s = Some t"
  with CallWait show ?thesis by (cases b) (auto split: option.splits if_splits)
qed (auto simp: Stop_def split: if_splits)

lemma Stop_after_return_never_completes:
  "ticker (lim s) = T_Done \<Longrightarrow> lim_run es s = Some t \<Longrightarrow> CallStop \<notin> set es"
proof (induction es arbitrary: s)
  case Nil
  then show ?case by simp
next
  case (Cons e es)
  then obtain u where u: "lim_fire e s = Some u" "lim_run es u = Some t"
    by (auto split: option.splits)
  from returned_stays_returned [OF Cons.prems(1) u(1)] Cons.IH [OF _ u(2)]
  show ?case by auto
qed

text \<open>
  C4, at \<open>rl := NewRateLimiter(ctx, 1000, 2); rl.Stop(); rl.Stop()\<close> and at
  \<open>cancel(); rl.Stop()\<close>: after a completed \<open>Stop\<close>, and after the goroutine has
  seen the cancelled context, the send of a further \<open>Stop\<close> is not enabled, and by
  \<open>Stop_after_return_never_completes\<close> it never will be.
\<close>

theorem Stop_second_call_blocks:
  "lim_run [Gor Start, CallStop] (lim_init lim2)
     = Some \<lparr>lctx = False, lim = lim2\<lparr>ticker := T_Done\<rparr>, waited = [], stopped = 1\<rparr>
   \<and> lim_fire CallStop \<lparr>lctx = False, lim = lim2\<lparr>ticker := T_Done\<rparr>, waited = [], stopped = 1\<rparr>
     = None
   \<and> lim_run [Gor Start, CancelCtx, Gor SeeCtx] (lim_init lim2)
     = Some \<lparr>lctx = True, lim = lim2\<lparr>ticker := T_Done\<rparr>, waited = [], stopped = 0\<rparr>
   \<and> lim_fire CallStop \<lparr>lctx = True, lim = lim2\<lparr>ticker := T_Done\<rparr>, waited = [], stopped = 0\<rparr>
     = None"
  by (simp add: lim_init_def lim2_def ticker_start_def go_quot_def Stop_def)

section \<open>Steps of a run\<close>

lemma sum_list_map_update:
  fixes f :: "'a \<Rightarrow> 'b::comm_monoid_add"
  shows "i < length ws \<Longrightarrow>
    sum_list (map f (ws[i := w])) + f (ws ! i) = sum_list (map f ws) + f w"
proof (induction ws arbitrary: i)
  case Nil
  then show ?case by simp
next
  case (Cons x xs)
  show ?case
  proof (cases i)
    case 0
    then show ?thesis by (simp add: ac_simps)
  next
    case (Suc j)
    with Cons.prems have "j < length xs" by simp
    from Cons.IH [OF this] Suc show ?thesis
      by (simp add: ac_simps)
  qed
qed

lemma worker_at_Some: "worker_at p i = Some w \<Longrightarrow> i < length (workers p) \<and> workers p ! i = w"
  by (auto simp: worker_at_def split: if_splits)

lemma busy_set_worker:
  "worker_at p i = Some w \<Longrightarrow>
   sum_list (map busy (workers (set_worker i w' p))) + busy w
     = sum_list (map busy (workers p)) + busy w'"
  using sum_list_map_update [of i "workers p" busy w']
  by (auto simp: set_worker_def dest!: worker_at_Some)



lemma set_worker_simps [simp]:
  "ctx (set_worker i w p) = ctx p" "todo (set_worker i w p) = todo p"
  "urlClosed (set_worker i w p) = urlClosed p" "urlChan (set_worker i w p) = urlChan p"
  "chanCap (set_worker i w p) = chanCap p" "results (set_worker i w p) = results p"
  "closed (set_worker i w p) = closed p" "sup (set_worker i w p) = sup p"
  "rl (set_worker i w p) = rl p" "got (set_worker i w p) = got p"
  by (simp_all add: set_worker_def)

text \<open>The steps, one rule each.\<close>

lemma fire_cases:
  assumes "fire fn a p = Some q"
  obtains
    (Cancel) "a = Cancel" "\<not> ctx p" "q = p\<lparr>ctx := True\<rparr>"
  | (Seed) u us where "a = Seed" "todo p = u # us" "\<not> urlClosed p"
      "length (urlChan p) < chanCap p" "q = p\<lparr>todo := us, urlChan := urlChan p @ [u]\<rparr>"
  | (SeedStop) "a = SeedStop" "\<not> urlClosed p" "todo p \<noteq> []" "ctx p" "q = p\<lparr>urlClosed := True\<rparr>"
  | (SeedEnd) "a = SeedEnd" "\<not> urlClosed p" "todo p = []" "q = p\<lparr>urlClosed := True\<rparr>"
  | (Take) i u us where "a = Take i" "worker_at p i = Some W_Recv" "urlChan p = u # us"
      "q = set_worker i (W_Token u) (p\<lparr>urlChan := us\<rparr>)"
  | (Leave) i where "a = Leave i" "worker_at p i = Some W_Recv" "urlChan p = []" "urlClosed p"
      "q = set_worker i W_Done p"
  | (Token) i u where "a = Token i" "worker_at p i = Some (W_Token u)" "0 < limitCh (rl p)"
      "q = set_worker i (W_Scrape u) (p\<lparr>rl := (rl p)\<lparr>limitCh := limitCh (rl p) - 1\<rparr>\<rparr>)"
  | (QuitToken) i u where "a = Quit i" "worker_at p i = Some (W_Token u)" "ctx p"
      "q = set_worker i W_Done p"
  | (QuitSend) i r where "a = Quit i" "worker_at p i = Some (W_Send r)" "ctx p"
      "q = set_worker i W_Done p"
  | (Scrape) i u where "a = Scrape i" "worker_at p i = Some (W_Scrape u)"
      "q = set_worker i (W_Send (fn (ctx p) u)) p"
  | (Emit) i r where "a = Emit i" "worker_at p i = Some (W_Send r)"
      "length (results p) < chanCap p"
      "q = set_worker i W_Recv (p\<lparr>results := results p @ [r]\<rparr>)"
  | (Waited) "a = Waited" "sup p = S_Wait" "list_all (\<lambda>w. w = W_Done) (workers p)"
      "q = p\<lparr>sup := S_Close\<rparr>"
  | (CloseResults) "a = CloseResults" "sup p = S_Close" "q = p\<lparr>closed := True, sup := S_Stop\<rparr>"
  | (StopSend) "a = StopSend" "sup p = S_Stop" "ticker (rl p) = T_Select"
      "q = p\<lparr>rl := (rl p)\<lparr>ticker := T_Done\<rparr>, sup := S_Done\<rparr>"
  | (Ticker) b r where "a = Ticker b" "ticker_step (ctx p) b (rl p) = Some r" "q = p\<lparr>rl := r\<rparr>"
  | (Receive) r rs where "a = Receive" "results p = r # rs"
      "q = p\<lparr>results := rs, got := got p @ [r]\<rparr>"
proof (cases a)
  case Cancel with assms that(1) show ?thesis by (auto split: if_splits)
next
  case Seed with assms that(2) show ?thesis by (auto split: if_splits list.splits)
next
  case SeedStop with assms that(3) show ?thesis by (auto split: if_splits)
next
  case SeedEnd with assms that(4) show ?thesis by (auto split: if_splits)
next
  case (Take i) with assms that(5) show ?thesis
    by (auto split: if_splits list.splits option.splits worker_state.splits)
next
  case (Leave i) with assms that(6) show ?thesis by (auto split: if_splits)
next
  case (Token i) with assms that(7) show ?thesis
    by (auto split: if_splits option.splits worker_state.splits)
next
  case (Quit i) with assms that(8,9) show ?thesis
    by (auto split: if_splits option.splits worker_state.splits)
next
  case (Scrape i) with assms that(10) show ?thesis
    by (auto split: if_splits option.splits worker_state.splits)
next
  case (Emit i) with assms that(11) show ?thesis
    by (auto split: if_splits option.splits worker_state.splits)
next
  case Waited with assms that(12) show ?thesis by (auto split: if_splits)
next
  case CloseResults with assms that(13) show ?thesis by (auto split: if_splits)
next
  case StopSend with assms that(14) show ?thesis
    by (auto simp: Stop_def split: if_splits option.splits)
next
  case (Ticker b) with assms that(15) show ?thesis by (auto split: option.splits)
next
  case Receive with assms that(16) show ?thesis by (auto split: list.splits)
qed


lemma worker_at_upd [simp]:
  "worker_at (p\<lparr>urlChan := us\<rparr>) i = worker_at p i"
  "worker_at (p\<lparr>rl := r\<rparr>) i = worker_at p i"
  "worker_at (p\<lparr>results := rs\<rparr>) i = worker_at p i"
  by (simp_all add: worker_at_def)



text \<open>The invariants hold along every step.\<close>

lemma fire_frame:
  "fire fn a p = Some q \<Longrightarrow>
   chanCap q = chanCap p \<and> length (workers q) = length (workers p) \<and> (ctx p \<longrightarrow> ctx q)"
  by (erule fire_cases) (auto simp: set_worker_def)

lemma fire_inv_cap: "fire fn a p = Some q \<Longrightarrow> inv_cap p \<Longrightarrow> inv_cap q"
proof (erule fire_cases)
  fix i u us
  assume h: "worker_at p i = Some W_Recv" "urlChan p = u # us"
    "q = set_worker i (W_Token u) (p\<lparr>urlChan := us\<rparr>)" and i: "inv_cap p"
  from h(1) have "worker_at (p\<lparr>urlChan := us\<rparr>) i = Some W_Recv" by simp
  from busy_set_worker [OF this, of "W_Token u"] h i show "inv_cap q"
    by (simp add: inv_cap_def)
next
  fix i assume h: "worker_at p i = Some W_Recv" "q = set_worker i W_Done p" and i: "inv_cap p"
  from busy_set_worker [OF h(1), of W_Done] h i show "inv_cap q"
    by (simp add: inv_cap_def)
next
  fix i u
  assume h: "worker_at p i = Some (W_Token u)"
    "q = set_worker i (W_Scrape u) (p\<lparr>rl := (rl p)\<lparr>limitCh := limitCh (rl p) - 1\<rparr>\<rparr>)"
    and i: "inv_cap p"
  from h(1) have "worker_at (p\<lparr>rl := (rl p)\<lparr>limitCh := limitCh (rl p) - 1\<rparr>\<rparr>) i = Some (W_Token u)"
    by simp
  from busy_set_worker [OF this, of "W_Scrape u"] h i show "inv_cap q"
    by (simp add: inv_cap_def)
next
  fix i u assume h: "worker_at p i = Some (W_Token u)" "q = set_worker i W_Done p"
    and i: "inv_cap p"
  from busy_set_worker [OF h(1), of W_Done] h i show "inv_cap q"
    by (simp add: inv_cap_def)
next
  fix i r assume h: "worker_at p i = Some (W_Send r)" "q = set_worker i W_Done p"
    and i: "inv_cap p"
  from busy_set_worker [OF h(1), of W_Done] h i show "inv_cap q"
    by (simp add: inv_cap_def)
next
  fix i u assume h: "worker_at p i = Some (W_Scrape u)" "q = set_worker i (W_Send (fn (ctx p) u)) p"
    and i: "inv_cap p"
  from busy_set_worker [OF h(1), of "W_Send (fn (ctx p) u)"] h i show "inv_cap q"
    by (simp add: inv_cap_def)
next
  fix i r
  assume h: "worker_at p i = Some (W_Send r)"
    "q = set_worker i W_Recv (p\<lparr>results := results p @ [r]\<rparr>)" and i: "inv_cap p"
  from h(1) have "worker_at (p\<lparr>results := results p @ [r]\<rparr>) i = Some (W_Send r)"
    by simp
  from busy_set_worker [OF this, of W_Recv] h i show "inv_cap q"
    by (simp add: inv_cap_def)
qed (auto simp: inv_cap_def)

lemma active_worker_sup:
  assumes "inv_sup p" and "worker_at p i = Some w" and "w \<noteq> W_Done"
  shows "sup p = S_Wait \<and> \<not> closed p"
proof -
  from assms(2,3) have "i < length (workers p)" "workers p ! i \<noteq> W_Done"
    by (auto dest: worker_at_Some)
  then have "\<not> list_all (\<lambda>w. w = W_Done) (workers p)"
    by (auto simp: list_all_length)
  with assms(1) show ?thesis by (auto simp: inv_sup_def)
qed

lemma inv_sup_worker_step:
  assumes "inv_sup p" and "worker_at p i = Some w" and "w \<noteq> W_Done"
    and "sup p' = sup p" and "closed p' = closed p"
  shows "inv_sup (set_worker i w' p')"
  using active_worker_sup [OF assms(1-3)] assms(4,5) by (simp add: inv_sup_def)

lemma fire_inv_sup:
  assumes "fire fn a p = Some q" and "inv_sup p"
  shows "inv_sup q"
  using assms(1)
proof (cases rule: fire_cases)
  case (Take i u us)
  with inv_sup_worker_step [OF assms(2) Take(2)] show ?thesis by simp
next
  case (Leave i)
  with inv_sup_worker_step [OF assms(2) Leave(2)] show ?thesis by simp
next
  case (Token i u)
  with inv_sup_worker_step [OF assms(2) Token(2)] show ?thesis by simp
next
  case (QuitToken i u)
  with inv_sup_worker_step [OF assms(2) QuitToken(2)] show ?thesis by simp
next
  case (QuitSend i r)
  with inv_sup_worker_step [OF assms(2) QuitSend(2)] show ?thesis by simp
next
  case (Scrape i u)
  with inv_sup_worker_step [OF assms(2) Scrape(2)] show ?thesis by simp
next
  case (Emit i r)
  with inv_sup_worker_step [OF assms(2) Emit(2)] show ?thesis by simp
qed (use assms(2) in \<open>auto simp: inv_sup_def\<close>)

lemma ticker_step_live:
  assumes "ticker_step c b r = Some r'"
    and "0 < intervals r" and "0 < go_quot (timeSpan r) (intervals r)"
  shows "intervals r' = intervals r \<and> timeSpan r' = timeSpan r
         \<and> (ticker r' = T_Select \<or> ticker r' = T_Send \<or> (ticker r' = T_Done \<and> c))"
  using assms by (cases b) (auto simp: ticker_start_def split: if_splits)

lemma fire_inv_lim:
  assumes "fire fn a p = Some q" and "inv_lim p"
  shows "inv_lim q"
  using assms(1)
proof (cases rule: fire_cases)
  case (Ticker b r)
  from assms(2) have pos: "0 < intervals (rl p)" "0 < go_quot (timeSpan (rl p)) (intervals (rl p))"
    by (simp_all add: inv_lim_def)
  from ticker_step_live [OF Ticker(2) pos] Ticker(3) pos show ?thesis
    by (auto simp: inv_lim_def)
qed (use assms(2) in \<open>auto simp: inv_lim_def\<close>)

lemma done_after_update:
  "W_Done \<in> set (ws[i := w]) \<Longrightarrow> w \<noteq> W_Done \<Longrightarrow> W_Done \<in> set ws"
  using set_update_subset_insert [of ws i w] by auto

lemma inv_drain_worker_step:
  assumes "inv_drain p" and "w \<noteq> W_Done" and "ctx p' = ctx p" and "todo p' = todo p"
    and "urlClosed p' = urlClosed p" and "workers p' = workers p"
    and "urlChan p = [] \<longrightarrow> urlChan p' = []"
  shows "inv_drain (set_worker i w p')"
  using assms by (auto simp: inv_drain_def set_worker_def dest: done_after_update)

lemma fire_inv_drain:
  assumes "fire fn a p = Some q" and "inv_drain p"
  shows "inv_drain q"
  using assms(1)
proof (cases rule: fire_cases)
  case (Take i u us)
  with inv_drain_worker_step [OF assms(2), of "W_Token u" "p\<lparr>urlChan := us\<rparr>" i]
  show ?thesis by simp
next
  case (Leave i)
  with assms(2) show ?thesis by (auto simp: inv_drain_def)
next
  case (Token i u)
  with inv_drain_worker_step [OF assms(2), of "W_Scrape u"
      "p\<lparr>rl := (rl p)\<lparr>limitCh := limitCh (rl p) - 1\<rparr>\<rparr>" i]
  show ?thesis by simp
next
  case (QuitToken i u)
  then show ?thesis by (simp add: inv_drain_def)
next
  case (QuitSend i r)
  then show ?thesis by (simp add: inv_drain_def)
next
  case (Scrape i u)
  with inv_drain_worker_step [OF assms(2), of "W_Send (fn (ctx p) u)" p i]
  show ?thesis by simp
next
  case (Emit i r)
  with inv_drain_worker_step [OF assms(2), of W_Recv "p\<lparr>results := results p @ [r]\<rparr>" i]
  show ?thesis by simp
qed (use assms(2) in \<open>auto simp: inv_drain_def\<close>)


lemma inv_from_set_worker:
  assumes "inv_from fn U p" and "wfrom fn U w"
  shows "inv_from fn U (set_worker i w p)"
proof -
  have "set ((workers p)[i := w]) \<subseteq> insert w (set (workers p))"
    by (rule set_update_subset_insert)
  with assms show ?thesis
    unfolding inv_from_def set_worker_def by auto
qed

lemma inv_from_at:
  "inv_from fn U p \<Longrightarrow> worker_at p i = Some w \<Longrightarrow> wfrom fn U w"
  by (auto simp: inv_from_def dest!: worker_at_Some)

lemma fire_inv_from:
  assumes "fire fn a p = Some q" and "inv_from fn U p"
  shows "inv_from fn U q"
  using assms(1)
proof (cases rule: fire_cases)
  case (Take i u us)
  with assms(2) have "inv_from fn U (p\<lparr>urlChan := us\<rparr>)" "wfrom fn U (W_Token u)"
    by (simp_all add: inv_from_def)
  with Take show ?thesis by (simp add: inv_from_set_worker)
next
  case (Leave i)
  with assms(2) show ?thesis by (simp add: inv_from_set_worker)
next
  case (Token i u)
  from inv_from_at [OF assms(2) Token(2)] have "wfrom fn U (W_Scrape u)" by simp
  moreover from assms(2)
  have "inv_from fn U (p\<lparr>rl := (rl p)\<lparr>limitCh := limitCh (rl p) - 1\<rparr>\<rparr>)"
    by (simp add: inv_from_def)
  ultimately show ?thesis using Token by (simp add: inv_from_set_worker)
next
  case (QuitToken i u)
  with assms(2) show ?thesis by (simp add: inv_from_set_worker)
next
  case (QuitSend i r)
  with assms(2) show ?thesis by (simp add: inv_from_set_worker)
next
  case (Scrape i u)
  from inv_from_at [OF assms(2) Scrape(2)] have "wfrom fn U (W_Send (fn (ctx p) u))" by auto
  with assms(2) Scrape show ?thesis by (simp add: inv_from_set_worker)
next
  case (Emit i r)
  from inv_from_at [OF assms(2) Emit(2)] have "\<exists>c. \<exists>u \<in> U. r = fn c u" by simp
  with assms(2) have "inv_from fn U (p\<lparr>results := results p @ [r]\<rparr>)"
    by (simp add: inv_from_def)
  with Emit show ?thesis by (simp add: inv_from_set_worker)
next
  case (Seed u us)
  with assms(2) show ?thesis by (simp add: inv_from_def)
next
  case (Receive r rs)
  with assms(2) show ?thesis by (simp add: inv_from_def)
qed (use assms(2) in \<open>simp_all add: inv_from_def\<close>)

section \<open>Runs\<close>

lemma run_inv_safe:
  "run fn as p = Some q \<Longrightarrow> inv_safe fn U p \<Longrightarrow> inv_safe fn U q"
proof (induction as arbitrary: p)
  case Nil
  then show ?case by simp
next
  case (Cons a as)
  then obtain u where u: "fire fn a p = Some u" "run fn as u = Some q"
    by (auto split: option.splits)
  from Cons.prems(2) u(1) have "inv_safe fn U u"
    by (simp add: inv_safe_def fire_inv_cap fire_inv_sup fire_inv_drain fire_inv_from)
  with Cons.IH u(2) show ?case by blast
qed

lemma run_inv_lim: "run fn as p = Some q \<Longrightarrow> inv_lim p \<Longrightarrow> inv_lim q"
proof (induction as arbitrary: p)
  case Nil
  then show ?case by simp
next
  case (Cons a as)
  then obtain u where u: "fire fn a p = Some u" "run fn as u = Some q"
    by (auto split: option.splits)
  from Cons.IH [OF u(2) fire_inv_lim [OF u(1) Cons.prems(2)]] show ?case .
qed

lemma run_frame:
  "run fn as p = Some q \<Longrightarrow>
   chanCap q = chanCap p \<and> length (workers q) = length (workers p) \<and> (ctx p \<longrightarrow> ctx q)"
proof (induction as arbitrary: p)
  case Nil
  then show ?case by simp
next
  case (Cons a as)
  then obtain u where u: "fire fn a p = Some u" "run fn as u = Some q"
    by (auto split: option.splits)
  from fire_frame [OF u(1)] Cons.IH [OF u(2)] show ?case by simp
qed


text \<open>The state \<open>ScrapeURLs\<close> returns.\<close>

lemma sum_list_replicate_empty [simp]:
  "sum_list (replicate n ({#} :: 'a multiset)) = {#}"
  by (induction n) simp_all

lemma ScrapeURLs_start:
  assumes "ScrapeURLs s c urls = Inr p"
  shows "inv_safe fn (set urls) p" and "account fn p = image_mset (fn False) (mset urls)"
    and "chanCap p = length urls" and "length (workers p) = nat (maxWorkers s)"
    and "rlm s = Some (rl p)" and "ctx p = c"
    and "rank p \<le> 8 * length urls + nat (maxWorkers s) + 2 * capacity (rl p) + 8"
    and "results p = []" and "got p = []"
proof -
  from assms obtain r where r: "rlm s = Some r"
    and p: "p = \<lparr>ctx = c, todo = urls, urlClosed = False, urlChan = [],
               chanCap = length urls,
               workers = replicate (nat (maxWorkers s)) W_Recv,
               results = [], closed = False, sup = S_Wait, rl = r, got = []\<rparr>"
    by (auto simp: ScrapeURLs_def split: option.splits)
  show "inv_safe fn (set urls) p"
    by (simp add: p inv_safe_def inv_cap_def inv_sup_def inv_drain_def inv_from_def)
  show "account fn p = image_mset (fn False) (mset urls)"
    by (simp add: p account_def)
  show "chanCap p = length urls" "length (workers p) = nat (maxWorkers s)"
    "rlm s = Some (rl p)" "ctx p = c" "results p = []" "got p = []"
    by (simp_all add: p r)
  have "trank (ticker r) \<le> 3" by (cases "ticker r") simp_all
  moreover have "2 * (capacity r - limitCh r) \<le> 2 * capacity r" by simp
  ultimately show "rank p \<le> 8 * length urls + nat (maxWorkers s) + 2 * capacity (rl p) + 8"
    by (simp add: p rank_def sum_list_replicate) linarith
qed

lemma live_inv_lim: "live (rl p) \<Longrightarrow> inv_lim p"
  by (auto simp: live_def inv_lim_def)

section \<open>Quiescent states\<close>

lemma candidate_or_disabled:
  "a \<noteq> Cancel \<Longrightarrow> a \<in> set (candidates p) \<or> fire fn a p = None"
proof (cases a)
  case (Ticker b)
  then show ?thesis by (cases b) (simp_all add: candidates_def)
qed (auto simp: candidates_def worker_at_def)

lemma quiescent_iff: "quiescent fn p = (\<forall>a. a \<noteq> Cancel \<longrightarrow> fire fn a p = None)"
proof
  assume "quiescent fn p"
  then have "\<And>a. a \<in> set (candidates p) \<Longrightarrow> fire fn a p = None"
    by (auto simp: quiescent_def enabled_def filter_empty_conv)
  with candidate_or_disabled [of _ p fn]
  show "\<forall>a. a \<noteq> Cancel \<longrightarrow> fire fn a p = None" by blast
next
  assume a: "\<forall>a. a \<noteq> Cancel \<longrightarrow> fire fn a p = None"
  have "Cancel \<notin> set (candidates p)" by (auto simp: candidates_def)
  with a have "\<forall>x \<in> set (candidates p). fire fn x p = None" by metis
  then show "quiescent fn p"
    by (simp add: quiescent_def enabled_def filter_empty_conv)
qed

lemma busy_at:
  "worker_at p i = Some w \<Longrightarrow> busy w \<le> sum_list (map busy (workers p))"
  by (rule member_le_sum_list) (auto dest!: worker_at_Some)

lemma quiescentD: "quiescent fn p \<Longrightarrow> a \<noteq> Cancel \<Longrightarrow> fire fn a p = None"
  by (simp add: quiescent_iff)

lemma quiescent_seeded:
  assumes q: "quiescent fn p" and "inv_cap p"
  shows "urlClosed p"
proof (rule ccontr)
  assume n: "\<not> urlClosed p"
  show False
  proof (cases "todo p")
    case Nil
    with n quiescentD [OF q, of SeedEnd] show False by simp
  next
    case (Cons u us)
    with assms(2) have "length (urlChan p) < chanCap p" by (simp add: inv_cap_def)
    with n Cons quiescentD [OF q, of Seed] show False by simp
  qed
qed

lemma quiescent_worker_done:
  assumes q: "quiescent fn p" and "inv_cap p" and "inv_sup p" and "ctx p \<or> inv_lim p"
    and w: "worker_at p i = Some w"
  shows "w = W_Done"
proof (cases w)
  case W_Recv
  have "urlClosed p" using q assms(2) by (rule quiescent_seeded)
  with w W_Recv quiescentD [OF q, of "Take i"] quiescentD [OF q, of "Leave i"]
  show ?thesis by (cases "urlChan p") simp_all
next
  case (W_Token u)
  show ?thesis
  proof (cases "ctx p")
    case True
    with w W_Token quiescentD [OF q, of "Quit i"] show ?thesis by simp
  next
    case False
    with assms(4) have l: "inv_lim p" by simp
    from active_worker_sup [OF assms(3) w] W_Token have s: "sup p = S_Wait" by simp
    show ?thesis
    proof (cases "0 < limitCh (rl p)")
      case True
      with w W_Token quiescentD [OF q, of "Token i"] show ?thesis by simp
    next
      case z: False
      from l z have "0 < capacity (rl p)" "limitCh (rl p) < capacity (rl p)"
        by (simp_all add: inv_lim_def capacity_def)
      with l s False quiescentD [OF q, of "Ticker Start"] quiescentD [OF q, of "Ticker Tick"]
        quiescentD [OF q, of "Ticker Sent"]
      show ?thesis by (auto simp: inv_lim_def split: option.splits if_splits)
    qed
  qed
next
  case (W_Scrape u)
  with w quiescentD [OF q, of "Scrape i"] show ?thesis by simp
next
  case (W_Send r)
  with busy_at [OF w] assms(2) have "length (results p) < chanCap p"
    by (simp add: inv_cap_def)
  with w W_Send quiescentD [OF q, of "Emit i"] show ?thesis by simp
next
  case W_Done
  then show ?thesis .
qed

lemma quiescent_closed:
  assumes q: "quiescent fn p" and "inv_cap p" and "inv_sup p" and "ctx p \<or> inv_lim p"
  shows "urlClosed p \<and> list_all (\<lambda>w. w = W_Done) (workers p) \<and> closed p
         \<and> results p = [] \<and> (sup p = S_Stop \<or> sup p = S_Done)"
proof -
  have u: "urlClosed p" using q assms(2) by (rule quiescent_seeded)
  have d: "list_all (\<lambda>w. w = W_Done) (workers p)"
    unfolding list_all_length
  proof (intro allI impI)
    fix i assume "i < length (workers p)"
    then have "worker_at p i = Some (workers p ! i)" by (simp add: worker_at_def)
    with assms show "workers p ! i = W_Done" by (rule quiescent_worker_done)
  qed
  have s: "sup p = S_Stop \<or> sup p = S_Done"
  proof (cases "sup p")
    case S_Wait
    with d quiescentD [OF q, of Waited] show ?thesis by simp
  next
    case S_Close
    with quiescentD [OF q, of CloseResults] show ?thesis by simp
  qed simp_all
  have r: "results p = []"
  proof (cases "results p")
    case (Cons x xs)
    with quiescentD [OF q, of Receive] show ?thesis by simp
  qed simp
  from u d s r assms(3) show ?thesis by (auto simp: inv_sup_def)
qed



section \<open>Results of a run\<close>


text \<open>\<open>SetRateLimit\<close> with \<open>0 < intervals \<le> timeSpan\<close> attaches a live limiter.\<close>

lemma SetRateLimit_live:
  assumes "0 < n" and "n \<le> ts"
  shows "\<exists>r. SetRateLimit ts n s = Inr (s\<lparr>rlm := Some r\<rparr>) \<and> live r"
proof -
  from assms have "0 < ts div n" by (simp add: pos_imp_zdiv_pos_iff)
  with assms have "0 < go_quot ts n" by (simp add: go_quot_def)
  with assms
  have "live \<lparr>timeSpan = ts, intervals = n, limitCh = 0, ticker = T_Start\<rparr>"
    by (simp add: live_def)
  moreover from assms
  have "SetRateLimit ts n s
          = Inr (s\<lparr>rlm := Some \<lparr>timeSpan = ts, intervals = n, limitCh = 0, ticker = T_Start\<rparr>\<rparr>)"
    by (simp add: SetRateLimit_def NewRateLimiter_def)
  ultimately show ?thesis by blast
qed




section \<open>Completion\<close>

lemma fire_close_count:
  assumes "fire fn a p = Some q" and "inv_sup p"
  shows "(if closed p then 1 else 0) + (if a = CloseResults then 1 else 0)
           = (if closed q then (1::nat) else 0)"
  using assms(1)
  by (cases rule: fire_cases) (use assms(2) in \<open>auto simp: inv_sup_def\<close>)

lemma fire_stop_count:
  assumes "fire fn a p = Some q"
  shows "(if sup p = S_Done then 1 else 0) + (if a = StopSend then 1 else 0)
           = (if sup q = S_Done then (1::nat) else 0)"
  using assms(1) by (cases rule: fire_cases) auto

lemma run_counts:
  "run fn as p = Some q \<Longrightarrow> inv_sup p \<Longrightarrow>
   (if closed p then 1 else 0) + count_list as CloseResults = (if closed q then 1 else 0)
   \<and> (if sup p = S_Done then 1 else 0) + count_list as StopSend
       = (if sup q = S_Done then 1 else 0)"
proof (induction as arbitrary: p)
  case Nil
  then show ?case by simp
next
  case (Cons a as)
  then obtain u where u: "fire fn a p = Some u" "run fn as u = Some q"
    by (auto split: option.splits)
  note ih = Cons.IH [OF u(2) fire_inv_sup [OF u(1) Cons.prems(2)]]
  have "(if closed p then 1 else 0) + count_list (a # as) CloseResults
          = (if closed q then 1 else 0)"
    using fire_close_count [OF u(1) Cons.prems(2)] ih
    by (cases "a = CloseResults") simp_all
  moreover have "(if sup p = S_Done then 1 else 0) + count_list (a # as) StopSend
          = (if sup q = S_Done then 1 else 0)"
    using fire_stop_count [OF u(1)] ih
    by (cases "a = StopSend") simp_all
  ultimately show ?case by simp
qed

text \<open>The example runs, evaluated.\<close>

lemmas example_defs =
  scraper1_def NewScraper_def lim1_def worker_at_def set_worker_def ticker_start_def
  go_quot_def capacity_def Stop_def scrapeURL_def net200_def has_scheme_def res_a_def
  res_cancelled_def

lemma scraper1_start: "ScrapeURLs scraper1 False [''http://a''] = Inr start1"
  by (simp add: ScrapeURLs_def scraper1_def NewScraper_def start1_def)

lemma run2: "run (scrapeFunc scraper1) sched2 start1 = Some final2"
  by (simp add: sched2_def start1_def final2_def example_defs)

lemma run3: "run (scrapeFunc scraper1) sched3 start1 = Some final3"
  by (simp add: sched3_def start1_def final3_def example_defs)

lemma quiescent2: "quiescent (scrapeFunc scraper1) final2"
  by (simp add: quiescent_def enabled_def candidates_def final2_def example_defs)

lemma quiescent3: "quiescent (scrapeFunc scraper1) final3"
  by (simp add: quiescent_def enabled_def candidates_def final3_def example_defs)

text \<open>
  What holds of completion in every run of \<open>ScrapeURLs\<close>, cancelled or not:
  \<open>close(results)\<close> happens at most once and has happened exactly once whenever
  \<open>results\<close> is closed; it happens only when every worker has returned; the last
  goroutine is in or past its one call of \<open>s.rlm.Stop()\<close> exactly from the close on,
  and that call completes at most once. Where nothing more can happen (with a cancelled
  context or a live limiter), \<open>results\<close> has been closed.
\<close>

lemma results_closed_once_after_workers:
  assumes "ScrapeURLs s c urls = Inr p0" and "run (scrapeFunc s) as p0 = Some p"
  shows "count_list as CloseResults = (if closed p then 1 else 0)
     \<and> count_list as StopSend = (if sup p = S_Done then 1 else 0)
     \<and> length (workers p) = nat (maxWorkers s)
     \<and> (closed p \<longrightarrow> list_all (\<lambda>w. w = W_Done) (workers p))
     \<and> (closed p = (sup p = S_Stop \<or> sup p = S_Done))
     \<and> (quiescent (scrapeFunc s) p \<and> (ctx p \<or> live (rl p0)) \<longrightarrow> closed p)"
proof -
  let ?fn = "scrapeFunc s"
  note st = ScrapeURLs_start [OF assms(1)]
  from st(1) [of ?fn] have i0: "inv_sup p0" by (simp add: inv_safe_def)
  from assms(1) have c0: "\<not> closed p0" "sup p0 = S_Wait"
    by (auto simp: ScrapeURLs_def split: option.splits)
  from run_inv_safe [OF assms(2) st(1) [of ?fn]]
  have safe: "inv_cap p" "inv_sup p" by (simp_all add: inv_safe_def)
  from run_counts [OF assms(2) i0] c0
  have n: "count_list as CloseResults = (if closed p then 1 else 0)"
    "count_list as StopSend = (if sup p = S_Done then 1 else 0)" by simp_all
  from safe(2) have w: "closed p \<longrightarrow> list_all (\<lambda>w. w = W_Done) (workers p)"
    and e: "closed p = (sup p = S_Stop \<or> sup p = S_Done)"
    by (auto simp: inv_sup_def)
  have q: "closed p" if "quiescent ?fn p" "ctx p \<or> live (rl p0)"
  proof -
    from that(2) run_inv_lim [OF assms(2) live_inv_lim] have "ctx p \<or> inv_lim p" by blast
    from quiescent_closed [OF that(1) safe this] show ?thesis by simp
  qed
  from run_frame [OF assms(2)] st(4)
  have k: "length (workers p) = nat (maxWorkers s)" by simp
  from n k w e q show ?thesis by blast
qed

text \<open>
  C7, at \<open>scraper1.ScrapeURLs(ctx, ["http://a"])\<close> with a live limiter and no
  cancellation, in the run \<open>sched5\<close>: while the worker scrapes, the limiter's goroutine
  fills \<open>limitCh\<close> and then stays inside \<open>limitCh <- struct{}{}\<close>. The result is
  delivered, every worker returns and \<open>results\<close> is closed once; but the send of
  \<open>s.rlm.Stop()\<close> finds no receiver on \<open>stopCh\<close>. Nothing more can happen: the limiter
  has not been stopped, no \<open>Stop\<close> has completed, and the last goroutine stays inside
  \<open>Stop\<close>.
\<close>

theorem uncancelled_run_stop_pending:
  "ScrapeURLs scraper1 False [''http://a''] = Inr start1 \<and> live (rl start1)
   \<and> run (scrapeFunc scraper1) sched5 start1 = Some final5
   \<and> quiescent (scrapeFunc scraper1) final5 \<and> \<not> ctx final5
   \<and> closed final5 \<and> workers final5 = [W_Done] \<and> got final5 = [res_a]
   \<and> count_list sched5 CloseResults = 1 \<and> count_list sched5 StopSend = 0
   \<and> sup final5 = S_Stop \<and> ticker (rl final5) = T_Send
   \<and> Stop (rl final5) = None"
proof -
  have "live (rl start1)" by (simp add: start1_def live_def lim1_def go_quot_def)
  moreover have "run (scrapeFunc scraper1) sched5 start1 = Some final5"
    by (simp add: sched5_def start1_def final5_def example_defs)
  moreover have "quiescent (scrapeFunc scraper1) final5"
    by (simp add: quiescent_def enabled_def candidates_def final5_def example_defs)
  moreover have "count_list sched5 CloseResults = 1" "count_list sched5 StopSend = 0"
    by (simp_all add: sched5_def)
  moreover have "Stop (rl final5) = None" by (simp add: final5_def Stop_def)
  ultimately show ?thesis using scraper1_start by (simp add: final5_def)
qed

section \<open>Cancellation\<close>

text \<open>
  What holds of every run, cancelled or not: at most \<open>len(urls)\<close> results; and once the
  context is cancelled and nothing more can happen, the seeding goroutine and every
  worker have returned and \<open>results\<close> is closed and drained.
\<close>

lemma cancelled_run_closes:
  assumes "ScrapeURLs s c urls = Inr p0" and "run (scrapeFunc s) as p0 = Some p"
  shows "length (results p) + length (got p) \<le> length urls"
    and "quiescent (scrapeFunc s) p \<Longrightarrow> ctx p \<Longrightarrow>
         urlClosed p \<and> list_all (\<lambda>w. w = W_Done) (workers p) \<and> closed p \<and> results p = []"
proof -
  note st = ScrapeURLs_start [OF assms(1)]
  from run_inv_safe [OF assms(2) st(1) [of "scrapeFunc s"]]
  have safe: "inv_cap p" "inv_sup p" by (simp_all add: inv_safe_def)
  from safe(1) run_frame [OF assms(2)] st(3)
  show "length (results p) + length (got p) \<le> length urls"
    by (simp add: inv_cap_def)
  show "urlClosed p \<and> list_all (\<lambda>w. w = W_Done) (workers p) \<and> closed p \<and> results p = []"
    if "quiescent (scrapeFunc s) p" "ctx p"
    using quiescent_closed [OF that(1) safe] that(2) by simp
qed

text \<open>
  C8, at \<open>scraper1.ScrapeURLs(ctx, ["http://a"])\<close> with \<open>ctx\<close> cancelled mid-run. In the run
  \<open>sched2\<close> the limiter's goroutine is inside \<open>limitCh <- struct{}{}\<close> with a full
  buffer when the context is cancelled: it never sees \<open>ctx.Done()\<close>, and the last
  goroutine stays inside \<open>s.rlm.Stop()\<close>. In the run \<open>sched3\<close> the limiter's goroutine
  returns on \<open>ctx.Done()\<close>, and the last goroutine again stays inside \<open>Stop\<close>. In
  both end states no step is enabled at all.
\<close>

theorem cancelled_run_leaks_goroutines:
  "ScrapeURLs scraper1 False [''http://a''] = Inr start1
   \<and> run (scrapeFunc scraper1) sched2 start1 = Some final2
   \<and> ctx final2 \<and> closed final2 \<and> got final2 = []
   \<and> quiescent (scrapeFunc scraper1) final2
   \<and> fire (scrapeFunc scraper1) Cancel final2 = None
   \<and> sup final2 = S_Stop \<and> ticker (rl final2) = T_Send
   \<and> run (scrapeFunc scraper1) sched3 start1 = Some final3
   \<and> ctx final3 \<and> quiescent (scrapeFunc scraper1) final3
   \<and> fire (scrapeFunc scraper1) Cancel final3 = None
   \<and> sup final3 = S_Stop \<and> ticker (rl final3) = T_Done"
  using scraper1_start run2 run3 quiescent2 quiescent3
  by (simp add: final2_def final3_def)








end
